theory Spec2Isabelle
  imports Main
begin

section \<open>Data model\<close>

text \<open>
  Modelled from the spec: the classes \<^verbatim>\<open>cdp.dom.Node\<close> and \<^verbatim>\<open>Element\<close>, which the module
  \<^verbatim>\<open>nodriver/core/util.py\<close> imports and does not define. A node has a stable identity (the
  attribute \<^verbatim>\<open>backend_node_id\<close> that the module reads, a number) and an ordered sequence of
  zero or more child nodes; the name tells apart nodes that share an identity. \<open>kind\<close>
  records which of the two classes the object has, which is what
  \<^verbatim>\<open>isinstance(child, Element)\<close> tests. Every node object is truthy, and a \<^verbatim>\<open>children\<close>
  attribute that is \<^verbatim>\<open>None\<close> or the empty list is falsy at the guard
  \<^verbatim>\<open>if tree and tree.children\<close>: both are the empty list here.
\<close>

datatype node_kind = DomNode | ElementObj

datatype node =
  Node (backend_node_id: nat) (node_name: string) (kind: node_kind) (children: "node list")

text \<open>
  The functions are dynamically typed: their first argument can be any Python value.
  \<open>pyobj\<close> holds the tree nodes and some values that have no \<^verbatim>\<open>children\<close> attribute.
\<close>

datatype pyobj = NodeObj node | NoneObj | IntObj int | StrObj string

datatype exn =
    TypeError
  | AttributeError
  | FileNotFoundError
  | PermissionError
  | OtherOSError string
  | TransportError string
  | RuntimeError string

text \<open>\<^verbatim>\<open>hasattr(doc, "children")\<close>.\<close>

fun hasattr_children :: "pyobj \<Rightarrow> bool" where
  "hasattr_children (NodeObj t) = True"
| "hasattr_children _ = False"

text \<open>
  \<^verbatim>\<open>doc.children\<close>, read only after the \<^verbatim>\<open>hasattr\<close> test has passed; \<open>tree_size\<close> is the
  measure by which the recursive functions below terminate.
\<close>

fun doc_children :: "pyobj \<Rightarrow> node list" where
  "doc_children (NodeObj t) = children t"
| "doc_children _ = []"

fun tree_size :: "pyobj \<Rightarrow> nat" where
  "tree_size (NodeObj t) = size t"
| "tree_size _ = 0"

section \<open>Tree queries\<close>

text \<open>
  \<^verbatim>\<open>filter_recurse_all(doc, predicate)\<close>: the \<^verbatim>\<open>for child in doc.children\<close> loop is
  \<open>filter_recurse_all_loop\<close>, with the list \<^verbatim>\<open>out\<close> as accumulator.
\<close>

function filter_recurse_all :: "pyobj \<Rightarrow> (node \<Rightarrow> bool) \<Rightarrow> exn + node list"
  and filter_recurse_all_loop ::
    "node list \<Rightarrow> (node \<Rightarrow> bool) \<Rightarrow> node list \<Rightarrow> exn + node list"
where
  "filter_recurse_all doc predicate =
     (if \<not> hasattr_children doc then Inl TypeError
      else if doc_children doc \<noteq> [] then
        filter_recurse_all_loop (doc_children doc) predicate []
      else Inr [])"
| "filter_recurse_all_loop [] predicate out = Inr out"
| "filter_recurse_all_loop (child # rest) predicate out =
     (let out1 = (if predicate child then out @ [child] else out)
      in case filter_recurse_all (NodeObj child) predicate of
           Inl e \<Rightarrow> Inl e
         | Inr found \<Rightarrow> filter_recurse_all_loop rest predicate (out1 @ found))"
  by pat_completeness auto
termination
proof (relation "measure (case_sum (\<lambda>(doc, p). tree_size doc)
                                     (\<lambda>(cs, p, out). size_list size cs))", goal_cases)
  case 1 show ?case by simp
next
  case (2 doc predicate)
  show ?case
  proof (cases doc)
    case (NodeObj t)
    then show ?thesis by (cases t) simp
  qed (use 2 in simp_all)
qed simp_all

text \<open>
  \<^verbatim>\<open>filter_recurse(doc, predicate)\<close>: a function that falls off its end returns
  \<^verbatim>\<open>None\<close>; \<^verbatim>\<open>if result\<close> holds for every node object and fails for \<^verbatim>\<open>None\<close>.
\<close>

function filter_recurse :: "pyobj \<Rightarrow> (node \<Rightarrow> bool) \<Rightarrow> exn + node option"
  and filter_recurse_loop :: "node list \<Rightarrow> (node \<Rightarrow> bool) \<Rightarrow> exn + node option"
where
  "filter_recurse doc predicate =
     (if \<not> hasattr_children doc then Inl TypeError
      else if doc_children doc \<noteq> [] then filter_recurse_loop (doc_children doc) predicate
      else Inr None)"
| "filter_recurse_loop [] predicate = Inr None"
| "filter_recurse_loop (child # rest) predicate =
     (if predicate child then Inr (Some child)
      else case filter_recurse (NodeObj child) predicate of
             Inl e \<Rightarrow> Inl e
           | Inr result \<Rightarrow>
               (if result \<noteq> None then Inr result
                else filter_recurse_loop rest predicate))"
  by pat_completeness auto
termination
proof (relation "measure (case_sum (\<lambda>(doc, p). tree_size doc)
                                     (\<lambda>(cs, p). size_list size cs))", goal_cases)
  case 1 show ?case by simp
next
  case (2 doc predicate)
  show ?case
  proof (cases doc)
    case (NodeObj t)
    then show ?thesis by (cases t) simp
  qed (use 2 in simp_all)
qed simp_all

section \<open>Removal by identity\<close>

text \<open>
  \<^verbatim>\<open>remove_from_tree(tree, node)\<close> changes \<^verbatim>\<open>tree.children\<close> while a \<^verbatim>\<open>for\<close> loop
  iterates over that same list. A Python list iterator is an index into the list: each
  round it stops when the index has reached the current length, and otherwise yields the
  element at the index and advances by one. \<open>remove_from_tree_loop cs i node\<close> is the loop
  with the current list \<open>cs\<close> and the iterator's index \<open>i\<close>.

  \<^verbatim>\<open>tree.children.remove(child)\<close> deletes the first element equal to \<^verbatim>\<open>child\<close>. Two
  nodes are taken to be equal when all their fields are, as for a dataclass: equality of
  values. \<open>index_of child cs\<close> is the position of that first element: when it is the
  position \<open>i\<close> of the child itself, the child has left the list and what the recursive
  call does to it is not seen in the tree; when it is an earlier, equal element, the
  child has moved to position \<open>i - 1\<close> and the recursive call changes it there. (No two
  siblings are equal in the trees at which the function is evaluated below, so that the
  results there hold for every equality under which equal nodes share their identity.)

  The function returns the object it was given, changed in place: the result is the
  node after the call, which \<open>set_children\<close> builds from the node and its new list of
  children (it is applied to node objects only).
\<close>

fun index_of :: "'a \<Rightarrow> 'a list \<Rightarrow> nat" where
  "index_of x [] = 0"
| "index_of x (y # ys) = (if y = x then 0 else Suc (index_of x ys))"

fun set_children :: "pyobj \<Rightarrow> node list \<Rightarrow> node" where
  "set_children (NodeObj (Node i n k _)) cs = Node i n k cs"
| "set_children _ cs = Node 0 [] DomNode cs"

lemma drop_remove1_nth:
  "i < length xs \<Longrightarrow> drop (Suc i) (remove1 (xs ! i) xs) = drop (Suc (Suc i)) xs"
proof (induction xs arbitrary: i)
  case Nil
  then show ?case by simp
next
  case (Cons a xs)
  show ?case
  proof (cases i)
    case 0
    then show ?thesis by simp
  next
    case (Suc j)
    with Cons show ?thesis by (cases "a = xs ! j") (auto simp: drop_Cons')
  qed
qed

lemma size_list_drop_Suc_le:
  "size_list f (drop (Suc i) xs) \<le> size_list f (drop i xs)"
  by (cases "i < length xs") (simp_all add: Cons_nth_drop_Suc[symmetric])

function remove_from_tree :: "pyobj \<Rightarrow> node \<Rightarrow> exn + node"
  and remove_from_tree_loop :: "node list \<Rightarrow> nat \<Rightarrow> node \<Rightarrow> exn + node list"
where
  "remove_from_tree tree node =
     (if \<not> hasattr_children tree then Inl TypeError
      else if doc_children tree \<noteq> [] then
        (case remove_from_tree_loop (doc_children tree) 0 node of
           Inl e \<Rightarrow> Inl e
         | Inr cs \<Rightarrow> Inr (set_children tree cs))
      else Inr (set_children tree (doc_children tree)))"
| "remove_from_tree_loop cs i node =
     (if length cs \<le> i then Inr cs
      else
        let child = cs ! i in
        if backend_node_id child = backend_node_id node then
          (let j = index_of child cs;
               cs1 = remove1 child cs
           in case remove_from_tree (NodeObj child) node of
                Inl e \<Rightarrow> Inl e
              | Inr child' \<Rightarrow>
                  remove_from_tree_loop
                    (if j < i then cs1[i - 1 := child'] else cs1) (Suc i) node)
        else
          (case remove_from_tree (NodeObj child) node of
             Inl e \<Rightarrow> Inl e
           | Inr child' \<Rightarrow> remove_from_tree_loop (cs[i := child']) (Suc i) node))"
  by pat_completeness auto
termination
proof (relation "measure (case_sum (\<lambda>(tree, n). tree_size tree)
                                     (\<lambda>(cs, i, n). size_list size (drop i cs)))", goal_cases)
  case 1 show ?case by simp
next
  case (2 tree node)
  show ?case
  proof (cases tree)
    case (NodeObj t)
    then show ?thesis by (cases t) simp
  qed (use 2 in simp_all)
next
  case (3 cs i node x xa xb)
  then show ?case by (simp add: Cons_nth_drop_Suc[symmetric])
next
  case (4 cs i node x xa xb xc)
  then show ?case
    using size_list_drop_Suc_le[of size "Suc i" cs]
    by (auto simp: drop_remove1_nth Cons_nth_drop_Suc[symmetric, of i cs])
next
  case (5 cs i node x)
  then show ?case by (simp add: Cons_nth_drop_Suc[symmetric])
next
  case (6 cs i node x xa)
  then show ?case by (simp add: Cons_nth_drop_Suc[symmetric])
qed

section \<open>Serialization\<close>

text \<open>
  \<^verbatim>\<open>html_from_tree(tree, target)\<close> awaits one fetch after the other. The markup of a child
  comes from \<^verbatim>\<open>child.get_html()\<close> for an \<^verbatim>\<open>Element\<close> and from
  \<^verbatim>\<open>target.send(cdp.dom.get_outer_html(backend_node_id=...))\<close> otherwise. Both are outside
  this module: \<open>get_html\<close> and the \<open>target\<close> are parameters, and each answers with the markup
  or with the exception it raises.
\<close>

record target =
  send_get_outer_html :: "nat \<Rightarrow> exn + string"

definition child_markup :: "(node \<Rightarrow> exn + string) \<Rightarrow> target \<Rightarrow> node \<Rightarrow> exn + string" where
  "child_markup get_html tgt child =
     (if kind child = ElementObj then get_html child
      else send_get_outer_html tgt (backend_node_id child))"

function html_from_tree ::
    "(node \<Rightarrow> exn + string) \<Rightarrow> pyobj \<Rightarrow> target \<Rightarrow> exn + string"
  and html_from_tree_loop ::
    "(node \<Rightarrow> exn + string) \<Rightarrow> node list \<Rightarrow> target \<Rightarrow> string \<Rightarrow> exn + string"
where
  "html_from_tree get_html tree tgt =
     (if \<not> hasattr_children tree then Inl TypeError
      else if doc_children tree \<noteq> [] then
        html_from_tree_loop get_html (doc_children tree) tgt []
      else Inr [])"
| "html_from_tree_loop get_html [] tgt out = Inr out"
| "html_from_tree_loop get_html (child # rest) tgt out =
     (case child_markup get_html tgt child of
        Inl e \<Rightarrow> Inl e
      | Inr own \<Rightarrow>
          (case html_from_tree get_html (NodeObj child) tgt of
             Inl e \<Rightarrow> Inl e
           | Inr below \<Rightarrow> html_from_tree_loop get_html rest tgt (out @ own @ below)))"
  by pat_completeness auto
termination
proof (relation "measure (case_sum (\<lambda>(g, tree, t). tree_size tree)
                                     (\<lambda>(g, cs, t, out). size_list size cs))", goal_cases)
  case 1 show ?case by simp
next
  case (2 get_html tree tgt)
  show ?case
  proof (cases tree)
    case (NodeObj t)
    then show ?thesis by (cases t) simp
  qed (use 2 in simp_all)
qed simp_all

section \<open>Shutdown of the registered browsers\<close>

text \<open>
  \<^verbatim>\<open>deconstruct_browser()\<close> iterates over the set \<^verbatim>\<open>__registered__instances__\<close>. The
  iteration order of a Python set is not fixed: the registry is given as the list of its
  elements in the order of the iteration, and the statements below hold for every such
  list.

  Modelled from the spec: the classes \<^verbatim>\<open>Browser\<close> and \<^verbatim>\<open>Config\<close>, which the module imports
  and does not define. A handle has a liveness flag \<^verbatim>\<open>stopped\<close> and a reference to its
  configuration, which names a working directory and tells whether the caller supplied that
  directory (\<^verbatim>\<open>custom_data_dir\<close>) or the handle owns it. The test \<^verbatim>\<open>_.config and ...\<close> of
  the module allows for a handle without a configuration.
\<close>

record config =
  custom_data_dir :: bool
  user_data_dir :: string

record browser =
  stopped :: bool
  config :: "config option"

text \<open>
  What the function does to its surroundings, in order: calls of \<^verbatim>\<open>stop()\<close>, calls of
  \<^verbatim>\<open>shutil.rmtree\<close>, \<^verbatim>\<open>time.sleep(0.15)\<close> (the duration is held in milliseconds), and
  the two log lines, with their arguments.
\<close>

datatype event =
    Stop browser
  | Rmtree string
  | Sleep nat
  | LogDebug string exn
  | LogInfo string

text \<open>
  The surroundings answer a call by returning or by raising. The answer may depend on
  everything that happened before the call, so that a directory can be locked for some
  attempts and free afterwards.
\<close>

record env =
  stop_raises :: "event list \<Rightarrow> browser \<Rightarrow> exn option"
  rmtree_raises :: "event list \<Rightarrow> string \<Rightarrow> exn option"

text \<open>
  \<^verbatim>\<open>FileNotFoundError\<close> and \<^verbatim>\<open>PermissionError\<close> are subclasses of \<^verbatim>\<open>OSError\<close>: the clause
  \<^verbatim>\<open>except (PermissionError, OSError)\<close> takes every \<^verbatim>\<open>OSError\<close> that the clause before it
  has not taken.
\<close>

fun is_OSError :: "exn \<Rightarrow> bool" where
  "is_OSError FileNotFoundError = True"
| "is_OSError PermissionError = True"
| "is_OSError (OtherOSError _) = True"
| "is_OSError _ = False"

text \<open>
  The loop \<^verbatim>\<open>for attempt in range(5)\<close>, from \<open>attempt\<close> on, with the events so far. An
  attempt that raises nothing does not leave the loop: only the two \<^verbatim>\<open>break\<close> statements
  and the end of the range do. The result is the events and the exception that leaves the
  loop, if any.
\<close>

function rmtree_attempts ::
  "env \<Rightarrow> browser \<Rightarrow> nat \<Rightarrow> event list \<Rightarrow> event list \<times> exn option"
where
  "rmtree_attempts e b attempt tr =
     (if 5 \<le> attempt then (tr, None)
      else
        (case config b of
           None \<Rightarrow> rmtree_attempts e b (Suc attempt) tr
         | Some c \<Rightarrow>
             if custom_data_dir c then rmtree_attempts e b (Suc attempt) tr
             else
               (case rmtree_raises e tr (user_data_dir c) of
                  None \<Rightarrow>
                    rmtree_attempts e b (Suc attempt) (tr @ [Rmtree (user_data_dir c)])
                | Some err \<Rightarrow>
                    if err = FileNotFoundError then (tr @ [Rmtree (user_data_dir c)], None)
                    else if is_OSError err then
                      (if attempt = 4 then
                         (tr @ [Rmtree (user_data_dir c), LogDebug (user_data_dir c) err],
                          None)
                       else
                         rmtree_attempts e b (Suc attempt)
                           (tr @ [Rmtree (user_data_dir c), Sleep 150]))
                    else (tr @ [Rmtree (user_data_dir c)], Some err))))"
  by pat_completeness auto
termination
  by (relation "measure (\<lambda>(e, b, attempt, tr). 5 - attempt)") auto

text \<open>
  The outer loop. \<^verbatim>\<open>_.stop()\<close> stands outside every \<^verbatim>\<open>try\<close>; the last line reads
  \<^verbatim>\<open>_.config.user_data_dir\<close> without the test made before \<^verbatim>\<open>rmtree\<close>, which raises
  \<^verbatim>\<open>AttributeError\<close> for a handle without a configuration.
\<close>

fun deconstruct_browser ::
  "env \<Rightarrow> browser list \<Rightarrow> event list \<Rightarrow> event list \<times> exn option"
where
  "deconstruct_browser e [] tr = (tr, None)"
| "deconstruct_browser e (b # bs) tr =
     (case (if \<not> stopped b then (tr @ [Stop b], stop_raises e tr b) else (tr, None)) of
        (tr1, Some err) \<Rightarrow> (tr1, Some err)
      | (tr1, None) \<Rightarrow>
          (case rmtree_attempts e b 0 tr1 of
             (tr2, Some err) \<Rightarrow> (tr2, Some err)
           | (tr2, None) \<Rightarrow>
               (case config b of
                  None \<Rightarrow> (tr2, Some AttributeError)
                | Some c \<Rightarrow>
                    deconstruct_browser e bs (tr2 @ [LogInfo (user_data_dir c)]))))"

section \<open>A free port\<close>

text \<open>
  \<^verbatim>\<open>free_port()\<close> is five calls of the socket library, one after the other, on the state
  \<open>'os\<close> of the operating system. Each call returns its result or raises, and leaves a
  new state. A socket is named by its descriptor; an address is a host and a port.
\<close>

datatype address_family = AF_INET | AF_INET6 | AF_UNIX

datatype socket_kind = SOCK_STREAM | SOCK_DGRAM

record 'os socket_api =
  sock_socket :: "address_family \<Rightarrow> socket_kind \<Rightarrow> 'os \<Rightarrow> (exn + nat) \<times> 'os"
  sock_bind :: "nat \<Rightarrow> string \<times> nat \<Rightarrow> 'os \<Rightarrow> (exn + unit) \<times> 'os"
  sock_listen :: "nat \<Rightarrow> nat \<Rightarrow> 'os \<Rightarrow> (exn + unit) \<times> 'os"
  sock_getsockname :: "nat \<Rightarrow> 'os \<Rightarrow> (exn + string \<times> nat) \<times> 'os"
  sock_close :: "nat \<Rightarrow> 'os \<Rightarrow> (exn + unit) \<times> 'os"

definition free_port :: "'os socket_api \<Rightarrow> 'os \<Rightarrow> (exn + nat) \<times> 'os" where
  "free_port api s0 =
     (case sock_socket api AF_INET SOCK_STREAM s0 of
        (Inl err, s1) \<Rightarrow> (Inl err, s1)
      | (Inr free_socket, s1) \<Rightarrow>
     (case sock_bind api free_socket (''127.0.0.1'', 0) s1 of
        (Inl err, s2) \<Rightarrow> (Inl err, s2)
      | (Inr _, s2) \<Rightarrow>
     (case sock_listen api free_socket 5 s2 of
        (Inl err, s3) \<Rightarrow> (Inl err, s3)
      | (Inr _, s3) \<Rightarrow>
     (case sock_getsockname api free_socket s3 of
        (Inl err, s4) \<Rightarrow> (Inl err, s4)
      | (Inr sockname, s4) \<Rightarrow>
     (case sock_close api free_socket s4 of
        (Inl err, s5) \<Rightarrow> (Inl err, s5)
      | (Inr _, s5) \<Rightarrow> (Inr (snd sockname), s5))))))"

text \<open>
  The equations of the entry functions and of the index loop have a variable on their left
  and would be unfolded without end; they are used where they are named.
\<close>

declare filter_recurse_all.simps [simp del]
declare filter_recurse.simps [simp del]
declare remove_from_tree.simps [simp del]
declare remove_from_tree_loop.simps [simp del]
declare html_from_tree.simps [simp del]
declare rmtree_attempts.simps [simp del]

section \<open>The strict subtree in document order\<close>

text \<open>
  The specification speaks of the nodes of the strict subtree of a tree in document order:
  each child, followed by its own strict subtree, child after child. \<open>descendants\<close> is that
  sequence, written from the specification and not from the code; every node below the
  root occurs in it once, at its place in the order.
\<close>

fun descendants :: "node \<Rightarrow> node list" where
  "descendants (Node i n k cs) = concat (map (\<lambda>c. c # descendants c) cs)"

text \<open>The same sequence for a list of trees: each tree, followed by its strict subtree.\<close>

definition forest :: "node list \<Rightarrow> node list" where
  "forest cs = concat (map (\<lambda>c. c # descendants c) cs)"

text \<open>The first element of a sequence, or absent.\<close>

definition first_of :: "'a list \<Rightarrow> 'a option" where
  "first_of xs = (case xs of [] \<Rightarrow> None | x # _ \<Rightarrow> Some x)"

text \<open>
  Answers taken one after the other: the first exception ends the sequence, otherwise the
  texts are concatenated in order.
\<close>

fun sequence_markup :: "(exn + string) list \<Rightarrow> exn + string" where
  "sequence_markup [] = Inr []"
| "sequence_markup (r # rs) =
     (case r of
        Inl e \<Rightarrow> Inl e
      | Inr own \<Rightarrow>
          (case sequence_markup rs of Inl e \<Rightarrow> Inl e | Inr below \<Rightarrow> Inr (own @ below)))"

section \<open>Concrete instances\<close>

text \<open>
  A transport that answers with a small tag for every node, and fails for the node with
  identity 2.
\<close>

definition demo_target :: target where
  "demo_target =
     \<lparr>send_get_outer_html =
        (\<lambda>i. if i = 2 then Inl (TransportError ''closed'')
             else Inr (''<n'' @ replicate i CHR ''i'' @ ''/>''))\<rparr>"

text \<open>
  Handles that own their directories: \<open>H1\<close> and \<open>H3\<close> are running, \<open>H2\<close> is already
  stopped. A file system in which the directories of \<open>present\<close> exist until a removal of
  them has succeeded; one in which every removal is refused; and surroundings in which
  stopping \<open>H1\<close> fails.
\<close>

definition H1 :: browser where
  "H1 = \<lparr>stopped = False,
          config = Some \<lparr>custom_data_dir = False, user_data_dir = ''/tmp/p1''\<rparr>\<rparr>"

definition H2 :: browser where
  "H2 = \<lparr>stopped = True,
          config = Some \<lparr>custom_data_dir = False, user_data_dir = ''/tmp/p2''\<rparr>\<rparr>"

definition H3 :: browser where
  "H3 = \<lparr>stopped = False,
          config = Some \<lparr>custom_data_dir = False, user_data_dir = ''/tmp/p3''\<rparr>\<rparr>"

definition fs_env :: "string list \<Rightarrow> env" where
  "fs_env present =
     \<lparr>stop_raises = (\<lambda>tr b. None),
      rmtree_raises = (\<lambda>tr p. if p \<in> set present \<and> Rmtree p \<notin> set tr then None
                               else Some FileNotFoundError)\<rparr>"

definition locked_env :: env where
  "locked_env = \<lparr>stop_raises = (\<lambda>tr b. None), rmtree_raises = (\<lambda>tr p. Some PermissionError)\<rparr>"

definition stop_fails_env :: env where
  "stop_fails_env =
     \<lparr>stop_raises = (\<lambda>tr b. if b = H1 then Some (RuntimeError ''stop failed'') else None),
      rmtree_raises = (\<lambda>tr p. None)\<rparr>"

text \<open>
  A small operating system for the socket calls, with IPv4 sockets on the loopback
  interface only: the open descriptors with the port each is bound to, if any. Binding to
  port 0 takes the port after the highest one in use, from 49152 on, and fails when that
  is beyond 65535; closing a descriptor frees its port.
\<close>

record os_state =
  next_fd :: nat
  sockets :: "(nat \<times> nat option) list"

definition ephemeral_port :: "os_state \<Rightarrow> nat" where
  "ephemeral_port s =
     Suc (fold max (map (\<lambda>(fd, p). case p of None \<Rightarrow> 0 | Some q \<Rightarrow> q) (sockets s)) 49151)"

definition loopback_os :: "os_state socket_api" where
  "loopback_os =
     \<lparr>sock_socket = (\<lambda>family knd s.
          if family \<noteq> AF_INET then (Inl (OtherOSError ''EAFNOSUPPORT''), s)
          else (Inr (next_fd s),
                s\<lparr>next_fd := Suc (next_fd s), sockets := (next_fd s, None) # sockets s\<rparr>)),
      sock_bind = (\<lambda>fd addr s.
          if map_of (sockets s) fd \<noteq> Some None then (Inl (OtherOSError ''EINVAL''), s)
          else if snd addr = 0 then
            (if 65535 < ephemeral_port s then (Inl (OtherOSError ''EADDRINUSE''), s)
             else (Inr (), s\<lparr>sockets := (fd, Some (ephemeral_port s)) # sockets s\<rparr>))
          else if Some (snd addr) \<in> snd ` set (sockets s) then
            (Inl (OtherOSError ''EADDRINUSE''), s)
          else (Inr (), s\<lparr>sockets := (fd, Some (snd addr)) # sockets s\<rparr>)),
      sock_listen = (\<lambda>fd backlog s.
          case map_of (sockets s) fd of
            Some (Some p) \<Rightarrow> (Inr (), s)
          | _ \<Rightarrow> (Inl (OtherOSError ''EINVAL''), s)),
      sock_getsockname = (\<lambda>fd s.
          case map_of (sockets s) fd of
            Some (Some p) \<Rightarrow> (Inr (''127.0.0.1'', p), s)
          | Some None \<Rightarrow> (Inr (''0.0.0.0'', 0), s)
          | None \<Rightarrow> (Inl (OtherOSError ''EBADF''), s)),
      sock_close = (\<lambda>fd s.
          case map_of (sockets s) fd of
            None \<Rightarrow> (Inl (OtherOSError ''EBADF''), s)
          | Some _ \<Rightarrow> (Inr (), s\<lparr>sockets := filter (\<lambda>(d, p). d \<noteq> fd) (sockets s)\<rparr>))\<rparr>"

section \<open>Facts about the tree functions\<close>

lemma descendants_children:
  "descendants t = concat (map (\<lambda>c. c # descendants c) (children t))"
  by (cases t) simp

lemma child_in_descendants:
  "c \<in> set (children t) \<Longrightarrow> c \<in> set (descendants t)"
  by (subst descendants_children) auto

lemma descendants_of_child:
  "c \<in> set (children t) \<Longrightarrow> set (descendants c) \<subseteq> set (descendants t)"
  by (subst (2) descendants_children) auto

lemma set_children_same: "set_children (NodeObj t) (children t) = t"
  by (cases t) simp

lemma filter_recurse_all_sound:
  "filter_recurse_all (NodeObj t) P = Inr (filter P (descendants t))"
  "filter_recurse_all_loop cs P out =
     Inr (out @ filter P (concat (map (\<lambda>c. c # descendants c) cs)))"
proof (induction "NodeObj t" P and cs P out arbitrary: t
       rule: filter_recurse_all_filter_recurse_all_loop.induct)
  case (1 predicate)
  then show ?case by (simp add: filter_recurse_all.simps descendants_children[of t])
next
  case (2 predicate out)
  then show ?case by simp
next
  case (3 child rest predicate out)
  then show ?case by simp
qed

lemma filter_recurse_sound:
  "filter_recurse (NodeObj t) P = Inr (first_of (filter P (descendants t)))"
  "filter_recurse_loop cs P =
     Inr (first_of (filter P (concat (map (\<lambda>c. c # descendants c) cs))))"
proof (induction "NodeObj t" P and cs P arbitrary: t
       rule: filter_recurse_filter_recurse_loop.induct)
  case (1 predicate)
  then show ?case
    by (simp add: filter_recurse.simps descendants_children[of t] first_of_def)
next
  case (2 predicate)
  then show ?case by (simp add: first_of_def)
next
  case (3 child rest predicate)
  then show ?case by (auto simp: first_of_def split: list.splits)
qed

lemma first_of_None: "first_of xs = None \<longleftrightarrow> xs = []"
  by (cases xs) (simp_all add: first_of_def)

text \<open>
  C3. For every tree \<open>T\<close> and predicate \<open>P\<close>, find-all returns the nodes of the strict
  subtree of \<open>T\<close> that satisfy \<open>P\<close>, in document order, each once (so without duplicates
  when the identities in the tree are unique); find-first returns the first element of
  that sequence, and is absent exactly when the sequence is empty.
\<close>

theorem find_all_find_first:
  "filter_recurse_all (NodeObj T) P = Inr (filter P (descendants T))
   \<and> filter_recurse (NodeObj T) P = Inr (first_of (filter P (descendants T)))
   \<and> (filter_recurse (NodeObj T) P = Inr None \<longleftrightarrow> filter P (descendants T) = [])
   \<and> (distinct (map backend_node_id (descendants T)) \<longrightarrow>
        distinct (filter P (descendants T)))"
proof -
  have "distinct (filter P (descendants T))"
    if "distinct (map backend_node_id (descendants T))"
    using that by (simp add: distinct_map)
  then show ?thesis
    by (simp add: filter_recurse_all_sound(1) filter_recurse_sound(1) first_of_None)
qed

theorem find_all_find_first_witness:
  "distinct (map backend_node_id
     (descendants (Node 0 ''root'' DomNode
        [Node 1 ''A'' DomNode [Node 3 ''D'' DomNode []], Node 2 ''B'' DomNode []])))
   \<and> filter_recurse_all
        (NodeObj (Node 0 ''root'' DomNode
           [Node 1 ''A'' DomNode [Node 3 ''D'' DomNode []], Node 2 ''B'' DomNode []]))
        (\<lambda>n. 2 \<le> backend_node_id n)
      = Inr [Node 3 ''D'' DomNode [], Node 2 ''B'' DomNode []]
   \<and> filter_recurse
        (NodeObj (Node 0 ''root'' DomNode
           [Node 1 ''A'' DomNode [Node 3 ''D'' DomNode []], Node 2 ''B'' DomNode []]))
        (\<lambda>n. 2 \<le> backend_node_id n)
      = Inr (Some (Node 3 ''D'' DomNode []))
   \<and> distinct [Node 3 ''D'' DomNode [], Node 2 ''B'' DomNode []]"
  using find_all_find_first
    [of "Node 0 ''root'' DomNode
           [Node 1 ''A'' DomNode [Node 3 ''D'' DomNode []], Node 2 ''B'' DomNode []]"
        "\<lambda>n. 2 \<le> backend_node_id n"]
  by (simp add: first_of_def)

lemma sequence_markup_append:
  "sequence_markup (xs @ ys) =
     (case sequence_markup xs of
        Inl e \<Rightarrow> Inl e
      | Inr s \<Rightarrow> (case sequence_markup ys of Inl e \<Rightarrow> Inl e | Inr t \<Rightarrow> Inr (s @ t)))"
  by (induction xs) (auto split: sum.splits)

lemma html_from_tree_sequence:
  "html_from_tree gh (NodeObj t) tg = sequence_markup (map (child_markup gh tg) (descendants t))"
  "html_from_tree_loop gh cs tg out =
     (case sequence_markup (map (child_markup gh tg) (concat (map (\<lambda>c. c # descendants c) cs))) of
        Inl e \<Rightarrow> Inl e
      | Inr s \<Rightarrow> Inr (out @ s))"
proof (induction gh "NodeObj t" tg and gh cs tg out arbitrary: t
       rule: html_from_tree_html_from_tree_loop.induct)
  case (1 get_html tgt)
  then show ?case
    by (simp add: html_from_tree.simps descendants_children[of t] split: sum.splits)
next
  case (2 get_html tgt out)
  then show ?case by simp
next
  case (3 get_html child rest tgt out)
  then show ?case by (simp add: sequence_markup_append split: sum.splits)
qed

lemma sequence_markup_first_failure:
  "c \<in> set ds \<Longrightarrow> f c = Inl e \<Longrightarrow>
     \<exists>pre c' post e'. ds = pre @ c' # post \<and> (\<forall>x \<in> set pre. \<exists>m. f x = Inr m)
        \<and> f c' = Inl e' \<and> sequence_markup (map f ds) = Inl e'"
proof (induction ds)
  case Nil
  then show ?case by simp
next
  case (Cons d ds)
  show ?case
  proof (cases "f d")
    case (Inl a)
    then have "d # ds = [] @ d # ds \<and> (\<forall>x \<in> set []. \<exists>m. f x = Inr m)
        \<and> f d = Inl a \<and> sequence_markup (map f (d # ds)) = Inl a"
      by simp
    then show ?thesis by blast
  next
    case (Inr b)
    with Cons.prems have "c \<in> set ds" by auto
    from Cons.IH[OF this Cons.prems(2)] obtain pre c' post e' where
      h: "ds = pre @ c' # post" "\<forall>x \<in> set pre. \<exists>m. f x = Inr m" "f c' = Inl e'"
         "sequence_markup (map f ds) = Inl e'"
      by blast
    from h Inr have "d # ds = (d # pre) @ c' # post \<and> (\<forall>x \<in> set (d # pre). \<exists>m. f x = Inr m)
        \<and> f c' = Inl e' \<and> sequence_markup (map f (d # ds)) = Inl e'"
      by simp
    then show ?thesis by blast
  qed
qed

text \<open>
  C6. Serializing a tree without children gives the empty string. For a tree of depth 1
  with three children whose markup is fetched as \<open>m1\<close>, \<open>m2\<close> and \<open>m3\<close>, the result is
  \<open>m1 @ m2 @ m3\<close>, in document order. The fetches are awaited one after the other, each
  before the next is issued, so the order of the result does not depend on how long a
  fetch takes; the statement holds for every transport.
\<close>

theorem html_from_tree_in_document_order:
  "(children t = [] \<longrightarrow> html_from_tree gh (NodeObj t) tg = Inr [])
   \<and> (children t = [c1, c2, c3] \<and> children c1 = [] \<and> children c2 = [] \<and> children c3 = []
        \<and> child_markup gh tg c1 = Inr m1 \<and> child_markup gh tg c2 = Inr m2
        \<and> child_markup gh tg c3 = Inr m3
      \<longrightarrow> html_from_tree gh (NodeObj t) tg = Inr (m1 @ m2 @ m3))"
  by (simp add: html_from_tree.simps)

theorem html_from_tree_in_document_order_witness:
  "html_from_tree (\<lambda>n. Inr ''<e/>'') (NodeObj (Node 0 ''root'' DomNode [])) demo_target = Inr []
   \<and> html_from_tree (\<lambda>n. Inr ''<e/>'')
        (NodeObj (Node 0 ''root'' DomNode
           [Node 1 ''A'' DomNode [], Node 4 ''B'' ElementObj [], Node 3 ''C'' DomNode []]))
        demo_target
      = Inr ''<ni/><e/><niii/>''"
  using html_from_tree_in_document_order
     [where t = "Node 0 ''root'' DomNode []" and gh = "\<lambda>n. Inr ''<e/>''"
        and tg = demo_target]
    html_from_tree_in_document_order
     [where t = "Node 0 ''root'' DomNode
           [Node 1 ''A'' DomNode [], Node 4 ''B'' ElementObj [], Node 3 ''C'' DomNode []]"
        and ?c1.0 = "Node 1 ''A'' DomNode []" and ?c2.0 = "Node 4 ''B'' ElementObj []"
        and ?c3.0 = "Node 3 ''C'' DomNode []"
        and gh = "\<lambda>n. Inr ''<e/>''" and tg = demo_target
        and ?m1.0 = "''<ni/>''" and ?m2.0 = "''<e/>''" and ?m3.0 = "''<niii/>''"]
  by (simp add: child_markup_def demo_target_def numeral_3_eq_3)

text \<open>
  C7. If the fetch of some node of the strict subtree fails, serialization returns no
  text: the call fails with the exception of the first fetch, in document order, that
  fails; every fetch before it had succeeded.
\<close>

theorem html_from_tree_propagates:
  "c \<in> set (descendants t) \<Longrightarrow> child_markup gh tg c = Inl e \<Longrightarrow>
     \<exists>pre c' post e'. descendants t = pre @ c' # post
       \<and> (\<forall>x \<in> set pre. \<exists>m. child_markup gh tg x = Inr m)
       \<and> child_markup gh tg c' = Inl e'
       \<and> html_from_tree gh (NodeObj t) tg = Inl e'"
  using sequence_markup_first_failure[of c "descendants t" "child_markup gh tg" e]
  by (simp add: html_from_tree_sequence(1))

theorem html_from_tree_propagates_witness:
  "Node 2 ''B'' DomNode [] \<in> set (descendants (Node 0 ''root'' DomNode
           [Node 1 ''A'' DomNode [Node 2 ''B'' DomNode []], Node 3 ''C'' DomNode []]))
   \<and> child_markup (\<lambda>n. Inr ''<e/>'') demo_target (Node 2 ''B'' DomNode [])
       = Inl (TransportError ''closed'')
   \<and> html_from_tree (\<lambda>n. Inr ''<e/>'')
        (NodeObj (Node 0 ''root'' DomNode
           [Node 1 ''A'' DomNode [Node 2 ''B'' DomNode []], Node 3 ''C'' DomNode []]))
        demo_target = Inl (TransportError ''closed'')"
proof -
  let ?t = "Node 0 ''root'' DomNode
           [Node 1 ''A'' DomNode [Node 2 ''B'' DomNode []], Node 3 ''C'' DomNode []]"
  have m: "Node 2 ''B'' DomNode [] \<in> set (descendants ?t)"
    by simp
  have f: "child_markup (\<lambda>n. Inr ''<e/>'') demo_target (Node 2 ''B'' DomNode [])
             = Inl (TransportError ''closed'')"
    by (simp add: child_markup_def demo_target_def)
  from html_from_tree_propagates[OF m f] obtain pre c' post e' where
    d: "descendants ?t = pre @ c' # post"
    and c: "child_markup (\<lambda>n. Inr ''<e/>'') demo_target c' = Inl e'"
    and h: "html_from_tree (\<lambda>n. Inr ''<e/>'') (NodeObj ?t) demo_target = Inl e'"
    by blast
  from d have "c' \<in> set (descendants ?t)" by simp
  with c have "e' = TransportError ''closed''"
    by (auto simp: child_markup_def demo_target_def split: if_splits)
  with h m f show ?thesis by simp
qed

section \<open>Values without children\<close>

text \<open>
  C8. For every value without a \<^verbatim>\<open>children\<close> attribute, find-first, find-all, remove
  and serialize each fail with \<^verbatim>\<open>TypeError\<close>; none returns absent, an empty sequence,
  the value itself or the empty text.
\<close>

theorem no_children_attribute_fails:
  "\<not> hasattr_children x \<Longrightarrow>
     filter_recurse x P = Inl TypeError
     \<and> filter_recurse_all x P = Inl TypeError
     \<and> remove_from_tree x n = Inl TypeError
     \<and> html_from_tree gh x tg = Inl TypeError"
  by (simp add: filter_recurse.simps filter_recurse_all.simps remove_from_tree.simps
        html_from_tree.simps)

theorem no_children_attribute_fails_witness:
  "\<not> hasattr_children NoneObj
   \<and> filter_recurse NoneObj (\<lambda>n. True) = Inl TypeError
   \<and> filter_recurse_all NoneObj (\<lambda>n. True) = Inl TypeError
   \<and> remove_from_tree NoneObj (Node 2 ''B'' DomNode []) = Inl TypeError
   \<and> html_from_tree (\<lambda>n. Inr ''<e/>'') NoneObj demo_target = Inl TypeError"
  using no_children_attribute_fails[of NoneObj "\<lambda>n. True" "Node 2 ''B'' DomNode []"
          "\<lambda>n. Inr ''<e/>''" demo_target]
  by simp

section \<open>Removal: what one call changes\<close>

lemma remove_from_tree_absent_aux:
  "(\<forall>d \<in> set (descendants t). backend_node_id d \<noteq> backend_node_id n) \<Longrightarrow>
     remove_from_tree (NodeObj t) n = Inr t"
  "(\<forall>c \<in> set (drop i cs). backend_node_id c \<noteq> backend_node_id n \<and>
        (\<forall>d \<in> set (descendants c). backend_node_id d \<noteq> backend_node_id n)) \<Longrightarrow>
     remove_from_tree_loop cs i n = Inr cs"
proof (induction "NodeObj t" n and cs i n arbitrary: t
       rule: remove_from_tree_remove_from_tree_loop.induct)
  case (1 node)
  show ?case
  proof (cases "children t = []")
    case True
    with set_children_same[of t] show ?thesis by (simp add: remove_from_tree.simps)
  next
    case False
    have "\<forall>c \<in> set (drop 0 (children t)). backend_node_id c \<noteq> backend_node_id node \<and>
        (\<forall>d \<in> set (descendants c). backend_node_id d \<noteq> backend_node_id node)"
      using 1(2) child_in_descendants[of _ t] descendants_of_child[of _ t] by (simp, blast)
    with 1(1) False have "remove_from_tree_loop (children t) 0 node = Inr (children t)"
      by simp
    with False show ?thesis by (simp add: remove_from_tree.simps set_children_same)
  qed
next
  case (2 cs i node)
  show ?case
  proof (cases "length cs \<le> i")
    case True
    then show ?thesis by (simp add: remove_from_tree_loop.simps)
  next
    case False
    then have mem: "cs ! i \<in> set (drop i cs)"
      by (metis Cons_nth_drop_Suc list.set_intros(1) not_le)
    with 2(5) have ne: "backend_node_id (cs ! i) \<noteq> backend_node_id node"
      and nd: "\<forall>d \<in> set (descendants (cs ! i)). backend_node_id d \<noteq> backend_node_id node"
      by auto
    have r: "remove_from_tree (NodeObj (cs ! i)) node = Inr (cs ! i)"
      using 2(3)[OF False refl ne nd] .
    have "\<forall>c \<in> set (drop (Suc i) (cs[i := cs ! i])). backend_node_id c \<noteq> backend_node_id node \<and>
        (\<forall>d \<in> set (descendants c). backend_node_id d \<noteq> backend_node_id node)"
      using 2(5) set_drop_subset_set_drop[of i "Suc i" cs] by (auto simp: drop_update_cancel)
    from 2(4)[OF False refl ne r this]
    have "remove_from_tree_loop (cs[i := cs ! i]) (Suc i) node = Inr (cs[i := cs ! i])" .
    with False ne r show ?thesis by (subst remove_from_tree_loop.simps) simp
  qed
qed

lemma remove_from_tree_total_aux:
  "\<exists>t'. remove_from_tree (NodeObj t) n = Inr t'"
  "\<exists>cs'. remove_from_tree_loop cs i n = Inr cs'"
proof (induction "NodeObj t" n and cs i n arbitrary: t
       rule: remove_from_tree_remove_from_tree_loop.induct)
  case (1 node)
  show ?case
  proof (cases "children t = []")
    case True
    then show ?thesis by (simp add: remove_from_tree.simps)
  next
    case False
    with 1 obtain cs' where "remove_from_tree_loop (children t) 0 node = Inr cs'"
      by auto
    with False show ?thesis by (simp add: remove_from_tree.simps)
  qed
next
  case (2 cs i node)
  show ?case
  proof (cases "length cs \<le> i")
    case True
    then show ?thesis by (simp add: remove_from_tree_loop.simps)
  next
    case False
    show ?thesis
    proof (cases "backend_node_id (cs ! i) = backend_node_id node")
      case True
      from 2(1)[OF False refl True refl refl] obtain c' where
        c: "remove_from_tree (NodeObj (cs ! i)) node = Inr c'" by blast
      from 2(2)[OF False refl True refl refl c] c False True show ?thesis
        by (subst remove_from_tree_loop.simps) (simp add: Let_def)
    next
      case ne: False
      from 2(3)[OF False refl ne] obtain c' where
        c: "remove_from_tree (NodeObj (cs ! i)) node = Inr c'" by blast
      from 2(4)[OF False refl ne c] c False ne show ?thesis
        by (subst remove_from_tree_loop.simps) simp
    qed
  qed
qed

lemma remove_from_tree_root:
  "remove_from_tree (NodeObj t) n = Inr t' \<Longrightarrow>
     backend_node_id t' = backend_node_id t \<and> node_name t' = node_name t \<and> kind t' = kind t"
  by (cases t) (auto simp: remove_from_tree.simps split: if_splits sum.splits)

lemma forest_simps [simp]:
  "forest [] = []"
  "forest (c # cs) = c # descendants c @ forest cs"
  "forest (xs @ ys) = forest xs @ forest ys"
  by (simp_all add: forest_def)

lemma descendants_forest: "descendants t = forest (children t)"
  by (simp add: forest_def descendants_children[of t])

lemma index_of_first:
  "i < length cs \<Longrightarrow> \<forall>x \<in> set (take i cs). x \<noteq> cs ! i \<Longrightarrow>
     index_of (cs ! i) cs = i \<and> remove1 (cs ! i) cs = take i cs @ drop (Suc i) cs"
proof (induction cs arbitrary: i)
  case Nil
  then show ?case by simp
next
  case (Cons a cs)
  show ?case
  proof (cases i)
    case 0
    then show ?thesis by simp
  next
    case (Suc k)
    with Cons.prems have "k < length cs" "\<forall>x \<in> set (take k cs). x \<noteq> cs ! k" "a \<noteq> cs ! k"
      by auto
    with Cons.IH[of k] Suc show ?thesis by simp
  qed
qed

text \<open>
  The identity to remove is unique in a tree that meets the invariant of the data model.
  For such a tree, and whenever the identity occurs at most once below the root, one
  call leaves no node with the identity in the tree: the child passed over after a removal
  cannot hold a second occurrence.
\<close>

lemma remove_from_tree_single_occurrence:
  "length (filter (\<lambda>d. backend_node_id d = backend_node_id n) (descendants t)) \<le> 1 \<Longrightarrow>
   remove_from_tree (NodeObj t) n = Inr t' \<Longrightarrow>
     \<forall>d \<in> set (descendants t'). backend_node_id d \<noteq> backend_node_id n"
  "\<forall>d \<in> set (forest (take i cs)). backend_node_id d \<noteq> backend_node_id n \<Longrightarrow>
   length (filter (\<lambda>d. backend_node_id d = backend_node_id n) (forest (drop i cs))) \<le> 1 \<Longrightarrow>
   remove_from_tree_loop cs i n = Inr cs' \<Longrightarrow>
     \<forall>d \<in> set (forest cs'). backend_node_id d \<noteq> backend_node_id n"
proof (induction "NodeObj t" n and cs i n arbitrary: t t' and cs'
       rule: remove_from_tree_remove_from_tree_loop.induct)
  case (1 node)
  show ?case
  proof (cases "children t = []")
    case True
    with 1(3) set_children_same[of t] have "t' = t" by (simp add: remove_from_tree.simps)
    with True show ?thesis by (simp add: descendants_forest)
  next
    case False
    with 1(3) obtain cs' where l: "remove_from_tree_loop (children t) 0 node = Inr cs'"
      and t': "t' = set_children (NodeObj t) cs'"
      by (auto simp: remove_from_tree.simps split: sum.splits)
    have "\<forall>d \<in> set (forest cs'). backend_node_id d \<noteq> backend_node_id node"
    proof (rule 1(1))
      show "\<not> \<not> hasattr_children (NodeObj t)" by simp
      show "doc_children (NodeObj t) \<noteq> []" using False by simp
      show "\<forall>d \<in> set (forest (take 0 (doc_children (NodeObj t)))).
              backend_node_id d \<noteq> backend_node_id node" by simp
      show "length (filter (\<lambda>d. backend_node_id d = backend_node_id node)
              (forest (drop 0 (doc_children (NodeObj t))))) \<le> 1"
        using 1(2) by (simp add: descendants_forest)
      show "remove_from_tree_loop (doc_children (NodeObj t)) 0 node = Inr cs'"
        using l by simp
    qed
    moreover from t' have "children t' = cs'" by (cases t) simp
    ultimately show ?thesis by (simp add: descendants_forest)
  qed
next
  case (2 cs i node)
  let ?tgt = "\<lambda>d. backend_node_id d = backend_node_id node"
  show ?case
  proof (cases "length cs \<le> i")
    case True
    with 2(7) have "cs' = cs" by (simp add: remove_from_tree_loop.simps)
    with True 2(5) show ?thesis by simp
  next
    case False
    then have i: "i < length cs" by simp
    have split: "drop i cs = cs ! i # drop (Suc i) cs"
      using i by (simp add: Cons_nth_drop_Suc)
    show ?thesis
    proof (cases "?tgt (cs ! i)")
      case True
      from 2(6) True have rest: "\<forall>d \<in> set (forest (drop (Suc i) cs)). \<not> ?tgt d"
        by (simp add: split filter_empty_conv)
      have "\<forall>x \<in> set (take i cs). x \<noteq> cs ! i"
      proof
        fix x assume "x \<in> set (take i cs)"
        then have "x \<in> set (forest (take i cs))" by (auto simp: forest_def)
        with 2(5) True show "x \<noteq> cs ! i" by auto
      qed
      from index_of_first[OF i this]
      have j: "index_of (cs ! i) cs = i"
        and r: "remove1 (cs ! i) cs = take i cs @ drop (Suc i) cs" by simp_all
      from remove_from_tree_total_aux(1)[of "cs ! i" node] obtain c' where
        c': "remove_from_tree (NodeObj (cs ! i)) node = Inr c'" by blast
      with 2(7) False True j r
      have l: "remove_from_tree_loop (take i cs @ drop (Suc i) cs) (Suc i) node = Inr cs'"
        by (subst (asm) remove_from_tree_loop.simps) (simp add: Let_def)
      have d: "drop (Suc i) (take i cs @ drop (Suc i) cs) = drop (Suc (Suc i)) cs"
        using drop_remove1_nth[OF i] r by simp
      have "set (forest (drop (Suc (Suc i)) cs)) \<subseteq> set (forest (drop (Suc i) cs))"
        using set_drop_subset_set_drop[of "Suc i" "Suc (Suc i)" cs]
        by (auto simp: forest_def)
      with rest have "\<forall>c \<in> set (drop (Suc i) (take i cs @ drop (Suc i) cs)).
          backend_node_id c \<noteq> backend_node_id node \<and>
          (\<forall>d \<in> set (descendants c). backend_node_id d \<noteq> backend_node_id node)"
        unfolding d by (auto simp: forest_def)
      from remove_from_tree_absent_aux(2)[OF this] l
      have "cs' = take i cs @ drop (Suc i) cs" by simp
      with 2(5) rest show ?thesis by auto
    next
      case ne: False
      from remove_from_tree_total_aux(1)[of "cs ! i" node] obtain c' where
        c': "remove_from_tree (NodeObj (cs ! i)) node = Inr c'" by blast
      from 2(6) have one: "length (filter ?tgt (descendants (cs ! i))) \<le> 1"
        and others: "length (filter ?tgt (forest (drop (Suc i) cs))) \<le> 1"
        by (simp_all add: split ne)
      from 2(3)[OF False refl ne one c']
      have below: "\<forall>d \<in> set (descendants c'). \<not> ?tgt d" .
      from remove_from_tree_root[OF c'] ne have root: "\<not> ?tgt c'" by simp
      from 2(7) False ne c'
      have l: "remove_from_tree_loop (cs[i := c']) (Suc i) node = Inr cs'"
        by (subst (asm) remove_from_tree_loop.simps) simp
      have t: "take (Suc i) (cs[i := c']) = take i cs @ [c']"
        using i by (simp add: take_Suc_conv_app_nth)
      have "\<forall>d \<in> set (forest (take (Suc i) (cs[i := c']))). \<not> ?tgt d"
        unfolding t using 2(5) below root by auto
      moreover have "length (filter ?tgt (forest (drop (Suc i) (cs[i := c'])))) \<le> 1"
        using others by (simp add: drop_update_cancel)
      ultimately show ?thesis using 2(4)[OF False refl ne c' _ _ l] by blast
    qed
  qed
qed

text \<open>
  C1. The root has the children A (identity 1), B (identity 2) and C (identity 2), in
  that order, and the node to remove has identity 2. When B is taken out of the list the
  iterator's index moves on to the position after the one C has moved into, so C is never
  tested: the call returns the root with the children A and C, not with A alone.
\<close>

theorem remove_from_tree_skips_next_sibling:
  "remove_from_tree
     (NodeObj (Node 0 ''root'' DomNode
        [Node 1 ''A'' DomNode [], Node 2 ''B'' DomNode [], Node 2 ''C'' DomNode []]))
     (Node 2 ''B'' DomNode [])
   = Inr (Node 0 ''root'' DomNode [Node 1 ''A'' DomNode [], Node 2 ''C'' DomNode []])"
  by (simp add: remove_from_tree.simps remove_from_tree_loop.simps)

text \<open>
  C9. The identity 2 occurs as a child of the root (X) and as a child of Y (Z), and Y is
  the sibling after X. Taking X out makes the loop pass over Y, so that the subtree of Y is
  not visited: Z stays in the tree. (That the call returns the node it was given, with
  its identity, and leaves a tree without the identity as it was, is shown by
  \<open>remove_from_tree_root\<close> and \<open>remove_from_tree_absent_aux\<close> above; that the removal is
  complete when the identity occurs once, by \<open>remove_from_tree_single_occurrence\<close>.)
\<close>

theorem remove_from_tree_misses_deeper_occurrence:
  "remove_from_tree
     (NodeObj (Node 0 ''root'' DomNode
        [Node 2 ''X'' DomNode [], Node 5 ''Y'' DomNode [Node 2 ''Z'' DomNode []]]))
     (Node 2 ''X'' DomNode [])
   = Inr (Node 0 ''root'' DomNode [Node 5 ''Y'' DomNode [Node 2 ''Z'' DomNode []]])"
  by (simp add: remove_from_tree.simps remove_from_tree_loop.simps)

section \<open>Shutdown: the retry loop and the drain\<close>

lemma rmtree_attempts_locked_step:
  "attempt < 4 \<Longrightarrow> config b = Some c \<Longrightarrow> \<not> custom_data_dir c \<Longrightarrow>
   rmtree_raises e tr (user_data_dir c) = Some err \<Longrightarrow> is_OSError err \<Longrightarrow>
   err \<noteq> FileNotFoundError \<Longrightarrow>
     rmtree_attempts e b attempt tr =
       rmtree_attempts e b (Suc attempt) (tr @ [Rmtree (user_data_dir c), Sleep 150])"
  by (subst rmtree_attempts.simps) simp

lemma rmtree_attempts_locked_last:
  "config b = Some c \<Longrightarrow> \<not> custom_data_dir c \<Longrightarrow>
   rmtree_raises e tr (user_data_dir c) = Some err \<Longrightarrow> is_OSError err \<Longrightarrow>
   err \<noteq> FileNotFoundError \<Longrightarrow>
     rmtree_attempts e b 4 tr =
       (tr @ [Rmtree (user_data_dir c), LogDebug (user_data_dir c) err], None)"
  by (subst rmtree_attempts.simps) simp

text \<open>
  C4. For a handle that owns its directory, when every removal of the directory raises a
  permission or other OS error, the retry loop makes exactly five removal attempts with a
  sleep of 150 ms between consecutive attempts (four sleeps), then logs the path and the
  error of the fifth attempt, and ends without an exception.
\<close>

theorem rmtree_attempts_always_locked:
  assumes cfg: "config b = Some c" and own: "\<not> custom_data_dir c"
    and locked: "\<forall>tr'. \<exists>err. rmtree_raises e tr' (user_data_dir c) = Some err
                    \<and> is_OSError err \<and> err \<noteq> FileNotFoundError"
  shows "\<exists>err. rmtree_attempts e b 0 tr =
           (tr @ [Rmtree (user_data_dir c), Sleep 150, Rmtree (user_data_dir c), Sleep 150,
                  Rmtree (user_data_dir c), Sleep 150, Rmtree (user_data_dir c), Sleep 150,
                  Rmtree (user_data_dir c), LogDebug (user_data_dir c) err], None)
         \<and> rmtree_raises e
              (tr @ [Rmtree (user_data_dir c), Sleep 150, Rmtree (user_data_dir c), Sleep 150,
                     Rmtree (user_data_dir c), Sleep 150, Rmtree (user_data_dir c), Sleep 150])
              (user_data_dir c) = Some err"
proof -
  let ?p = "user_data_dir c"
  let ?rs = "[Rmtree ?p, Sleep 150]"
  have step: "rmtree_attempts e b attempt tr' = rmtree_attempts e b (Suc attempt) (tr' @ ?rs)"
    if "attempt < 4" for attempt tr'
  proof -
    from locked obtain err where "rmtree_raises e tr' ?p = Some err" "is_OSError err"
      "err \<noteq> FileNotFoundError" by blast
    from rmtree_attempts_locked_step[OF that cfg own this] show ?thesis .
  qed
  let ?tr4 = "tr @ ?rs @ ?rs @ ?rs @ ?rs"
  from locked obtain err where err: "rmtree_raises e ?tr4 ?p = Some err" "is_OSError err"
      "err \<noteq> FileNotFoundError" by blast
  have "rmtree_attempts e b 0 tr = rmtree_attempts e b 1 (tr @ ?rs)"
    using step[of 0 tr] by simp
  also have "\<dots> = rmtree_attempts e b 2 ((tr @ ?rs) @ ?rs)"
    using step[of 1 "tr @ ?rs"] by (simp add: numeral_2_eq_2)
  also have "\<dots> = rmtree_attempts e b 3 (((tr @ ?rs) @ ?rs) @ ?rs)"
    using step[of 2 "(tr @ ?rs) @ ?rs"] by (simp add: numeral_3_eq_3 numeral_2_eq_2)
  also have "\<dots> = rmtree_attempts e b 4 ((((tr @ ?rs) @ ?rs) @ ?rs) @ ?rs)"
    using step[of 3 "((tr @ ?rs) @ ?rs) @ ?rs"] by (simp add: eval_nat_numeral)
  also have "\<dots> = rmtree_attempts e b 4 ?tr4" by simp
  also have "\<dots> = (?tr4 @ [Rmtree ?p, LogDebug ?p err], None)"
    using rmtree_attempts_locked_last[OF cfg own err] .
  finally show ?thesis using err(1) by auto
qed

theorem rmtree_attempts_always_locked_witness:
  "config H1 = Some \<lparr>custom_data_dir = False, user_data_dir = ''/tmp/p1''\<rparr>
   \<and> (\<forall>tr'. rmtree_raises locked_env tr' ''/tmp/p1'' = Some PermissionError)
   \<and> rmtree_attempts locked_env H1 0 [Stop H1] =
       ([Stop H1, Rmtree ''/tmp/p1'', Sleep 150, Rmtree ''/tmp/p1'', Sleep 150,
         Rmtree ''/tmp/p1'', Sleep 150, Rmtree ''/tmp/p1'', Sleep 150,
         Rmtree ''/tmp/p1'', LogDebug ''/tmp/p1'' PermissionError], None)"
  using rmtree_attempts_always_locked
    [of H1 "\<lparr>custom_data_dir = False, user_data_dir = ''/tmp/p1''\<rparr>" locked_env "[Stop H1]"]
  by (simp add: H1_def locked_env_def)

text \<open>
  C5. When a removal of a handle's own directory raises \<^verbatim>\<open>FileNotFoundError\<close>, the retry
  loop ends at once and without an exception: after that attempt there is no further
  removal, no sleep and no diagnostic for the handle. The drain then writes its closing
  log line for the handle and goes on to the next one.
\<close>

theorem absent_directory_is_success:
  assumes "config b = Some c" and "\<not> custom_data_dir c"
  shows "(attempt < 5 \<and> rmtree_raises e tr (user_data_dir c) = Some FileNotFoundError
            \<longrightarrow> rmtree_attempts e b attempt tr = (tr @ [Rmtree (user_data_dir c)], None))
       \<and> (stopped b \<and> rmtree_raises e tr (user_data_dir c) = Some FileNotFoundError
            \<longrightarrow> deconstruct_browser e (b # bs) tr =
                 deconstruct_browser e bs
                   (tr @ [Rmtree (user_data_dir c), LogInfo (user_data_dir c)]))
       \<and> (\<not> stopped b \<and> stop_raises e tr b = None
          \<and> rmtree_raises e (tr @ [Stop b]) (user_data_dir c) = Some FileNotFoundError
            \<longrightarrow> deconstruct_browser e (b # bs) tr =
                 deconstruct_browser e bs
                   (tr @ [Stop b, Rmtree (user_data_dir c), LogInfo (user_data_dir c)]))"
proof -
  have a: "rmtree_attempts e b attempt tr' = (tr' @ [Rmtree (user_data_dir c)], None)"
    if "attempt < 5" "rmtree_raises e tr' (user_data_dir c) = Some FileNotFoundError"
    for attempt tr'
    using that assms by (subst rmtree_attempts.simps) simp
  have s: "deconstruct_browser e (b # bs) tr =
          deconstruct_browser e bs (tr @ [Rmtree (user_data_dir c), LogInfo (user_data_dir c)])"
    if "stopped b" "rmtree_raises e tr (user_data_dir c) = Some FileNotFoundError"
    using that assms a[of 0 tr] by simp
  have n: "deconstruct_browser e (b # bs) tr =
          deconstruct_browser e bs
            (tr @ [Stop b, Rmtree (user_data_dir c), LogInfo (user_data_dir c)])"
    if "\<not> stopped b" "stop_raises e tr b = None"
       "rmtree_raises e (tr @ [Stop b]) (user_data_dir c) = Some FileNotFoundError"
    using that assms a[of 0 "tr @ [Stop b]"] by simp
  from a[of attempt tr] s n show ?thesis by blast
qed

theorem absent_directory_is_success_witness:
  "rmtree_attempts (fs_env [''/tmp/p1'']) H2 0
        [Stop H1, Rmtree ''/tmp/p1'', Rmtree ''/tmp/p1'', LogInfo ''/tmp/p1'']
       = ([Stop H1, Rmtree ''/tmp/p1'', Rmtree ''/tmp/p1'', LogInfo ''/tmp/p1'',
           Rmtree ''/tmp/p2''], None)
   \<and> deconstruct_browser (fs_env [''/tmp/p1'']) [H2]
        [Stop H1, Rmtree ''/tmp/p1'', Rmtree ''/tmp/p1'', LogInfo ''/tmp/p1'']
       = ([Stop H1, Rmtree ''/tmp/p1'', Rmtree ''/tmp/p1'', LogInfo ''/tmp/p1'',
           Rmtree ''/tmp/p2'', LogInfo ''/tmp/p2''], None)
   \<and> deconstruct_browser (fs_env []) [H1] []
       = ([Stop H1, Rmtree ''/tmp/p1'', LogInfo ''/tmp/p1''], None)"
proof -
  let ?c2 = "\<lparr>custom_data_dir = False, user_data_dir = ''/tmp/p2''\<rparr>"
  let ?c1 = "\<lparr>custom_data_dir = False, user_data_dir = ''/tmp/p1''\<rparr>"
  let ?tr = "[Stop H1, Rmtree ''/tmp/p1'', Rmtree ''/tmp/p1'', LogInfo ''/tmp/p1'']"
  have c2: "config H2 = Some ?c2" "\<not> custom_data_dir ?c2" "stopped H2"
    by (simp_all add: H2_def)
  have c1: "config H1 = Some ?c1" "\<not> custom_data_dir ?c1" "\<not> stopped H1"
    by (simp_all add: H1_def)
  have gone2: "rmtree_raises (fs_env [''/tmp/p1'']) ?tr (user_data_dir ?c2)
                 = Some FileNotFoundError"
    by (simp add: fs_env_def)
  have gone1: "rmtree_raises (fs_env []) ([] @ [Stop H1]) (user_data_dir ?c1)
                 = Some FileNotFoundError"
    "stop_raises (fs_env []) [] H1 = None"
    by (simp_all add: fs_env_def)
  note T2 = absent_directory_is_success[OF c2(1,2), of 0 "fs_env [''/tmp/p1'']" ?tr "[]"]
  note T1 = absent_directory_is_success[OF c1(1,2), of 0 "fs_env []" "[]" "[]"]
  from T2 gone2
  have A: "rmtree_attempts (fs_env [''/tmp/p1'']) H2 0 ?tr = (?tr @ [Rmtree ''/tmp/p2''], None)"
    by (simp del: deconstruct_browser.simps)
  from T2 c2(3) gone2
  have B0: "deconstruct_browser (fs_env [''/tmp/p1'']) [H2] ?tr
              = deconstruct_browser (fs_env [''/tmp/p1'']) []
                  (?tr @ [Rmtree ''/tmp/p2'', LogInfo ''/tmp/p2''])"
    by (simp del: deconstruct_browser.simps)
  have B: "deconstruct_browser (fs_env [''/tmp/p1'']) [H2] ?tr
              = (?tr @ [Rmtree ''/tmp/p2'', LogInfo ''/tmp/p2''], None)"
    unfolding B0 by simp
  from T1 c1(3) gone1
  have C0: "deconstruct_browser (fs_env []) [H1] []
             = deconstruct_browser (fs_env []) []
                 ([] @ [Stop H1, Rmtree ''/tmp/p1'', LogInfo ''/tmp/p1''])"
    by (simp del: deconstruct_browser.simps)
  have C: "deconstruct_browser (fs_env []) [H1] []
             = ([Stop H1, Rmtree ''/tmp/p1'', LogInfo ''/tmp/p1''], None)"
    unfolding C0 by simp
  from A B C show ?thesis by simp
qed

text \<open>
  The scenario of the specification: \<open>H1\<close> owns \<^verbatim>\<open>/tmp/p1\<close> and is running, \<open>H2\<close> is stopped
  and its directory \<^verbatim>\<open>/tmp/p2\<close> does not exist. A removal that succeeds does not leave
  the loop, so \<^verbatim>\<open>/tmp/p1\<close> is removed and then found absent.
\<close>

lemma drain_scenario:
  "deconstruct_browser (fs_env [''/tmp/p1'']) [H1, H2] []
       = ([Stop H1, Rmtree ''/tmp/p1'', Rmtree ''/tmp/p1'', LogInfo ''/tmp/p1'',
           Rmtree ''/tmp/p2'', LogInfo ''/tmp/p2''], None)"
  by (simp add: H1_def H2_def fs_env_def rmtree_attempts.simps)

lemma rmtree_attempts_contained:
  assumes os: "\<forall>tr' p err. rmtree_raises e tr' p = Some err \<longrightarrow> is_OSError err"
  shows "\<exists>new. rmtree_attempts e b attempt tr = (tr @ new, None)
           \<and> (attempt < 5 \<longrightarrow> (\<forall>c. config b = Some c \<and> \<not> custom_data_dir c
                  \<longrightarrow> Rmtree (user_data_dir c) \<in> set new))"
  using os
proof (induction e b attempt tr rule: rmtree_attempts.induct)
  case (1 e b attempt tr)
  note os = "1.prems"
  show ?case
  proof (cases "5 \<le> attempt")
    case True
    then show ?thesis by (subst rmtree_attempts.simps) simp
  next
    case False
    show ?thesis
    proof (cases "config b")
      case None
      with "1.IH"(1)[OF False None os] False show ?thesis
        by (subst rmtree_attempts.simps) simp
    next
      case (Some c)
      show ?thesis
      proof (cases "custom_data_dir c")
        case True
        with "1.IH"(2)[OF False Some True os] False Some show ?thesis
          by (subst rmtree_attempts.simps) simp
      next
        case own: False
        show ?thesis
        proof (cases "rmtree_raises e tr (user_data_dir c)")
          case None
          from "1.IH"(3)[OF False Some own None os] obtain new where
            "rmtree_attempts e b (Suc attempt) (tr @ [Rmtree (user_data_dir c)])
               = ((tr @ [Rmtree (user_data_dir c)]) @ new, None)"
            by blast
          then have "rmtree_attempts e b attempt tr
                       = (tr @ (Rmtree (user_data_dir c) # new), None)"
            using False Some own None by (subst rmtree_attempts.simps) simp
          moreover have "Rmtree (user_data_dir c) \<in> set (Rmtree (user_data_dir c) # new)"
            by simp
          ultimately show ?thesis using Some by auto
        next
          case (Some err)
          note raised = this
          from os raised have oserr: "is_OSError err" by blast
          show ?thesis
          proof (cases "err = FileNotFoundError")
            case True
            with False \<open>config b = Some c\<close> own raised
            have "rmtree_attempts e b attempt tr = (tr @ [Rmtree (user_data_dir c)], None)"
              by (subst rmtree_attempts.simps) simp
            with \<open>config b = Some c\<close> show ?thesis by auto
          next
            case nf: False
            show ?thesis
            proof (cases "attempt = 4")
              case True
              with \<open>config b = Some c\<close> own raised nf oserr
              have "rmtree_attempts e b attempt tr
                      = (tr @ [Rmtree (user_data_dir c), LogDebug (user_data_dir c) err], None)"
                by (subst rmtree_attempts.simps) simp
              with \<open>config b = Some c\<close> show ?thesis by auto
            next
              case n4: False
              from "1.IH"(4)[OF False \<open>config b = Some c\<close> own raised nf oserr n4 os] obtain new where
                "rmtree_attempts e b (Suc attempt) (tr @ [Rmtree (user_data_dir c), Sleep 150])
                   = ((tr @ [Rmtree (user_data_dir c), Sleep 150]) @ new, None)"
                by blast
              then have "rmtree_attempts e b attempt tr
                       = (tr @ (Rmtree (user_data_dir c) # Sleep 150 # new), None)"
                using False \<open>config b = Some c\<close> own raised nf oserr n4
                by (subst rmtree_attempts.simps) simp
              moreover have "Rmtree (user_data_dir c)
                               \<in> set (Rmtree (user_data_dir c) # Sleep 150 # new)"
                by simp
              ultimately show ?thesis using \<open>config b = Some c\<close> by auto
            qed
          qed
        qed
      qed
    qed
  qed
qed

text \<open>
  C2, as the code has it. The drain contains the OS errors of directory removal, not the
  errors of \<^verbatim>\<open>stop()\<close>. When no \<^verbatim>\<open>stop()\<close> raises, removal raises OS errors only and every
  handle has a configuration, the drain ends without an exception and has processed every
  handle of the registry: each running handle was stopped, each directory owned by its
  handle had a removal attempted, and the closing line was logged for each handle. An
  exception raised by \<^verbatim>\<open>stop()\<close> leaves the function at once, with the handles after it
  untouched.
\<close>

theorem drain_processes_every_handle:
  "((\<forall>b \<in> set bs. config b \<noteq> None \<and> (\<forall>tr'. stop_raises e tr' b = None))
      \<and> (\<forall>tr' p err. rmtree_raises e tr' p = Some err \<longrightarrow> is_OSError err)
      \<longrightarrow> (\<exists>new. deconstruct_browser e bs tr = (tr @ new, None)
             \<and> (\<forall>b \<in> set bs.
                   (\<not> stopped b \<longrightarrow> Stop b \<in> set new)
                   \<and> (\<forall>c. config b = Some c \<longrightarrow>
                          LogInfo (user_data_dir c) \<in> set new
                          \<and> (\<not> custom_data_dir c \<longrightarrow> Rmtree (user_data_dir c) \<in> set new)))))
   \<and> (\<not> stopped h \<and> stop_raises e tr h = Some err
      \<longrightarrow> deconstruct_browser e (h # hs) tr = (tr @ [Stop h], Some err))"
proof -
  have A: "\<exists>new. deconstruct_browser e bs tr = (tr @ new, None)
             \<and> (\<forall>b \<in> set bs.
                   (\<not> stopped b \<longrightarrow> Stop b \<in> set new)
                   \<and> (\<forall>c. config b = Some c \<longrightarrow>
                          LogInfo (user_data_dir c) \<in> set new
                          \<and> (\<not> custom_data_dir c \<longrightarrow> Rmtree (user_data_dir c) \<in> set new)))"
    if ok: "\<forall>b \<in> set bs. config b \<noteq> None \<and> (\<forall>tr'. stop_raises e tr' b = None)"
      and os: "\<forall>tr' p err. rmtree_raises e tr' p = Some err \<longrightarrow> is_OSError err"
    using ok
  proof (induction bs arbitrary: tr)
    case Nil
    then show ?case by simp
  next
    case (Cons b bs)
    from Cons.prems obtain c where c: "config b = Some c" by auto
    from Cons.prems have st: "stop_raises e tr b = None" by simp
    define tr1 where "tr1 = (if stopped b then tr else tr @ [Stop b])"
    from rmtree_attempts_contained[OF os, of b 0 tr1] obtain n1 where
      n1: "rmtree_attempts e b 0 tr1 = (tr1 @ n1, None)"
        "\<not> custom_data_dir c \<longrightarrow> Rmtree (user_data_dir c) \<in> set n1"
      using c by auto
    let ?tr2 = "(tr1 @ n1) @ [LogInfo (user_data_dir c)]"
    from Cons.prems have "\<forall>b \<in> set bs. config b \<noteq> None \<and> (\<forall>tr'. stop_raises e tr' b = None)"
      by simp
    from Cons.IH[OF this, of ?tr2] obtain n2 where
      n2: "deconstruct_browser e bs ?tr2 = (?tr2 @ n2, None)"
        "\<forall>b \<in> set bs.
                   (\<not> stopped b \<longrightarrow> Stop b \<in> set n2)
                   \<and> (\<forall>c. config b = Some c \<longrightarrow>
                          LogInfo (user_data_dir c) \<in> set n2
                          \<and> (\<not> custom_data_dir c \<longrightarrow> Rmtree (user_data_dir c) \<in> set n2))"
      by blast
    define new where "new = (if stopped b then [] else [Stop b]) @ n1 @ [LogInfo (user_data_dir c)] @ n2"
    have eq: "deconstruct_browser e (b # bs) tr = (tr @ new, None)"
    proof (cases "stopped b")
      case True
      with st c n1(1) n2(1) show ?thesis by (simp add: tr1_def new_def)
    next
      case False
      with st c n1(1) n2(1) show ?thesis by (simp add: tr1_def new_def)
    qed
    have "\<forall>b' \<in> set (b # bs).
                   (\<not> stopped b' \<longrightarrow> Stop b' \<in> set new)
                   \<and> (\<forall>c. config b' = Some c \<longrightarrow>
                          LogInfo (user_data_dir c) \<in> set new
                          \<and> (\<not> custom_data_dir c \<longrightarrow> Rmtree (user_data_dir c) \<in> set new))"
      using c n1(2) n2(2) by (auto simp: new_def)
    with eq show ?case by blast
  qed
  have B: "deconstruct_browser e (h # hs) tr = (tr @ [Stop h], Some err)"
    if "\<not> stopped h" "stop_raises e tr h = Some err"
    using that by simp
  from A B show ?thesis by blast
qed


theorem drain_processes_every_handle_witness:
  "(\<exists>new. deconstruct_browser (fs_env [''/tmp/p1'']) [H1, H2] [] = (new, None)
      \<and> Stop H1 \<in> set new
      \<and> Rmtree ''/tmp/p1'' \<in> set new \<and> LogInfo ''/tmp/p1'' \<in> set new
      \<and> Rmtree ''/tmp/p2'' \<in> set new \<and> LogInfo ''/tmp/p2'' \<in> set new)
   \<and> deconstruct_browser stop_fails_env [H1] [LogInfo ''start'']
       = ([LogInfo ''start'', Stop H1], Some (RuntimeError ''stop failed''))"
proof -
  let ?e = "fs_env [''/tmp/p1'']"
  have h1: "\<forall>b \<in> set [H1, H2]. config b \<noteq> None \<and> (\<forall>tr'. stop_raises ?e tr' b = None)"
    by (simp add: H1_def H2_def fs_env_def)
  have h2: "\<forall>tr' p err. rmtree_raises ?e tr' p = Some err \<longrightarrow> is_OSError err"
    by (simp add: fs_env_def)
  from drain_processes_every_handle[of "[H1, H2]" ?e "[]" H1 "RuntimeError ''x''" "[]"] h1 h2
  obtain new where
    n: "deconstruct_browser ?e [H1, H2] [] = ([] @ new, None)"
    and all: "\<forall>b \<in> set [H1, H2].
                (\<not> stopped b \<longrightarrow> Stop b \<in> set new)
                \<and> (\<forall>c. config b = Some c \<longrightarrow>
                       LogInfo (user_data_dir c) \<in> set new
                       \<and> (\<not> custom_data_dir c \<longrightarrow> Rmtree (user_data_dir c) \<in> set new))"
    by blast
  from all have "Stop H1 \<in> set new
      \<and> Rmtree ''/tmp/p1'' \<in> set new \<and> LogInfo ''/tmp/p1'' \<in> set new
      \<and> Rmtree ''/tmp/p2'' \<in> set new \<and> LogInfo ''/tmp/p2'' \<in> set new"
    by (simp add: H1_def H2_def)
  with n have A: "\<exists>new. deconstruct_browser ?e [H1, H2] [] = (new, None)
      \<and> Stop H1 \<in> set new
      \<and> Rmtree ''/tmp/p1'' \<in> set new \<and> LogInfo ''/tmp/p1'' \<in> set new
      \<and> Rmtree ''/tmp/p2'' \<in> set new \<and> LogInfo ''/tmp/p2'' \<in> set new"
    by simp
  have s1: "\<not> stopped H1" by (simp add: H1_def)
  have s2: "stop_raises stop_fails_env [LogInfo ''start''] H1 = Some (RuntimeError ''stop failed'')"
    by (simp add: stop_fails_env_def)
  from drain_processes_every_handle
         [of "[]" stop_fails_env "[LogInfo ''start'']" H1 "RuntimeError ''stop failed''" "[]"]
       s1 s2
  have B: "deconstruct_browser stop_fails_env [H1] [LogInfo ''start'']
       = ([LogInfo ''start'', Stop H1], Some (RuntimeError ''stop failed''))"
    by simp
  from A B show ?thesis by blast
qed

text \<open>
  C2, as stated, fails: stopping \<open>H1\<close> raises, and the drain ends with that exception
  before \<open>H3\<close> is looked at: \<open>H3\<close> is not stopped and its directory is not removed.
\<close>

theorem stop_failure_aborts_drain:
  "deconstruct_browser stop_fails_env [H1, H3] []
     = ([Stop H1], Some (RuntimeError ''stop failed''))
   \<and> Stop H3 \<notin> set (fst (deconstruct_browser stop_fails_env [H1, H3] []))
   \<and> Rmtree ''/tmp/p3'' \<notin> set (fst (deconstruct_browser stop_fails_env [H1, H3] []))"
  by (simp add: H1_def H3_def stop_fails_env_def)

section \<open>The port that \<open>free_port\<close> returns\<close>

text \<open>
  C10. \<open>free_port\<close> returns the port \<open>p\<close> exactly when it has opened a socket, bound it to
  the loopback address with port 0 (the operating system chooses the port), put it in the
  listening state, read as the socket's own address a port \<open>p\<close>, and closed that socket:
  the close is the last call before the return, and the value returned is the port the
  operating system reported for the socket.
\<close>

theorem free_port_returns_assigned_port:
  "free_port api s = (Inr p, s') \<longleftrightarrow>
     (\<exists>fd s1 s2 s3 s4 host.
        sock_socket api AF_INET SOCK_STREAM s = (Inr fd, s1)
        \<and> sock_bind api fd (''127.0.0.1'', 0) s1 = (Inr (), s2)
        \<and> sock_listen api fd 5 s2 = (Inr (), s3)
        \<and> sock_getsockname api fd s3 = (Inr (host, p), s4)
        \<and> sock_close api fd s4 = (Inr (), s'))"
  by (auto simp: free_port_def split: prod.splits sum.splits)

theorem free_port_returns_assigned_port_witness:
  "free_port loopback_os \<lparr>next_fd = 3, sockets = [(2, Some 49152)]\<rparr>
     = (Inr 49153, \<lparr>next_fd = 4, sockets = [(2, Some 49152)]\<rparr>)
   \<and> free_port loopback_os \<lparr>next_fd = 4, sockets = [(2, Some 49152)]\<rparr>
     = (Inr 49153, \<lparr>next_fd = 5, sockets = [(2, Some 49152)]\<rparr>)"
  by (simp add: free_port_returns_assigned_port loopback_os_def ephemeral_port_def)

text \<open>
  In the small operating system the call leaves the bound ports as it found them, so that
  a call that follows at once succeeds as well.
\<close>

lemma filter_fresh_fd:
  "fd \<notin> fst ` set xs \<Longrightarrow> filter (\<lambda>(d, p). d \<noteq> fd) xs = xs"
  by (induction xs) auto

lemma free_port_loopback_os:
  assumes fresh: "next_fd s \<notin> fst ` set (sockets s)" and room: "ephemeral_port s \<le> 65535"
  shows "free_port loopback_os s = (Inr (ephemeral_port s), s\<lparr>next_fd := Suc (next_fd s)\<rparr>)"
proof -
  have e: "ephemeral_port (s\<lparr>next_fd := Suc (next_fd s), sockets := (next_fd s, None) # sockets s\<rparr>)
             = ephemeral_port s"
    by (simp add: ephemeral_port_def)
  show ?thesis
    using room fresh
    by (simp add: free_port_def loopback_os_def e filter_fresh_fd)
qed

lemma free_port_twice:
  assumes fresh: "next_fd s \<notin> fst ` set (sockets s)" "Suc (next_fd s) \<notin> fst ` set (sockets s)"
    and room: "ephemeral_port s \<le> 65535"
  shows "\<exists>p s1 p' s2. free_port loopback_os s = (Inr p, s1) \<and> free_port loopback_os s1 = (Inr p', s2)"
  using free_port_loopback_os[OF fresh(1) room]
    free_port_loopback_os[of "s\<lparr>next_fd := Suc (next_fd s)\<rparr>"] fresh(2) room
  by (simp add: ephemeral_port_def)

end
